theory Spec2Isabelle
  imports Main "HOL-Library.Sublist" "HOL-Library.Multiset"
begin

section \<open>Breadth-first theorem generation for the MU puzzle (generator.py)\<close>

text \<open>
  The development embeds \<^verbatim>\<open>generator.py\<close>: the four rewrite rules, the class
  \<^verbatim>\<open>TheoremNode\<close> and the breadth-first generator
  \<^verbatim>\<open>generate_theorem_tree_optimized\<close>.

  Python strings are modelled as \<^typ>\<open>string\<close>. The nodes are mutable objects that refer
  to each other (a child holds its parent, a parent the list of its children), so they
  live in an explicit store: a list of node records in which the position of a node is
  its address. Allocating a node appends it to the store. A Python reference always
  points to an object; in the model the generator reads the store only at addresses
  that it allocated before, which the invariant \<open>wf_state\<close> below records.
  The rules compare letters with \<open>M\<close>, \<open>I\<close> and \<open>U\<close> only, and they are total:
  on a string without a match they return \<open>None\<close>.
\<close>

subsection \<open>The string operations the rules use\<close>

text \<open>\<^verbatim>\<open>s.endswith(suf)\<close>, \<^verbatim>\<open>s.startswith(pre)\<close> and \<^verbatim>\<open>sub in s\<close>.\<close>

definition endswith :: "string \<Rightarrow> string \<Rightarrow> bool" where
  "endswith s suf = suffix suf s"

definition startswith :: "string \<Rightarrow> string \<Rightarrow> bool" where
  "startswith s pre = prefix pre s"

definition contains :: "string \<Rightarrow> string \<Rightarrow> bool" where
  "contains s sub = sublist sub s"

text \<open>
  \<^verbatim>\<open>s.replace(old, new, 1)\<close>: the leftmost occurrence of \<open>old\<close> is replaced by
  \<open>new\<close>; a string without an occurrence is returned as it is.
\<close>

fun replace_first :: "string \<Rightarrow> string \<Rightarrow> string \<Rightarrow> string" where
  "replace_first old new [] = (if old = [] then new else [])"
| "replace_first old new (c # cs) =
     (if prefix old (c # cs) then new @ drop (length old) (c # cs)
      else c # replace_first old new cs)"

subsection \<open>The rules\<close>

type_synonym rule = "string \<Rightarrow> string option"

definition AXIOM :: string where
  "AXIOM = ''MI''"

definition rule_0 :: rule where
  "rule_0 theorem = (if endswith theorem ''I'' then Some (theorem @ ''U'') else None)"

definition rule_1 :: rule where
  "rule_1 theorem = (if startswith theorem ''M'' then Some (theorem @ drop 1 theorem) else None)"

definition rule_2 :: rule where
  "rule_2 theorem =
     (if contains theorem ''III'' then Some (replace_first ''III'' ''U'' theorem) else None)"

definition rule_3 :: rule where
  "rule_3 theorem =
     (if contains theorem ''UU'' then Some (replace_first ''UU'' '''' theorem) else None)"

definition RULES :: "rule list" where
  "RULES = [rule_0, rule_1, rule_2, rule_3]"

subsection \<open>Theorem nodes and the store\<close>

type_synonym addr = nat

record TheoremNode =
  theorem_str :: string
  level :: int
  parent :: "addr option"
  children :: "addr list"

type_synonym heap = "TheoremNode list"

text \<open>The constructor \<^verbatim>\<open>TheoremNode(theorem, level, parent=None)\<close>.\<close>

definition TheoremNode_init :: "string \<Rightarrow> int \<Rightarrow> addr option \<Rightarrow> TheoremNode" where
  "TheoremNode_init thm lvl par = \<lparr>theorem_str = thm, level = lvl, parent = par, children = []\<rparr>"

text \<open>Allocation: the new object is placed at the end of the store.\<close>

definition alloc :: "heap \<Rightarrow> TheoremNode \<Rightarrow> addr \<times> heap" where
  "alloc h n = (length h, h @ [n])"

text \<open>
  \<^verbatim>\<open>self.children.append(child); child.parent = self\<close>, in this order.
\<close>

definition add_child :: "heap \<Rightarrow> addr \<Rightarrow> addr \<Rightarrow> heap" where
  "add_child h self child =
     (let h1 = h[self := (h ! self)\<lparr>children := children (h ! self) @ [child]\<rparr>]
      in h1[child := (h1 ! child)\<lparr>parent := Some self\<rparr>])"

definition is_leaf :: "heap \<Rightarrow> addr \<Rightarrow> bool" where
  "is_leaf h self = (length (children (h ! self)) = 0)"

text \<open>
  \<^verbatim>\<open>get_path_to_root\<close> walks the parent references until it meets \<^verbatim>\<open>None\<close>.
  On a store whose parent references form a cycle the walk never ends, so the loop
  is a partial function: not returning is the value \<open>None\<close>.
\<close>

partial_function (option) path_loop :: "heap \<Rightarrow> addr option \<Rightarrow> string list \<Rightarrow> string list option" where
  "path_loop h current path =
     (case current of
        None \<Rightarrow> Some path
      | Some c \<Rightarrow> path_loop h (parent (h ! c)) (path @ [theorem_str (h ! c)]))"

definition get_path_to_root :: "heap \<Rightarrow> addr \<Rightarrow> string list option" where
  "get_path_to_root h self = map_option rev (path_loop h (Some self) [])"

subsection \<open>The generator\<close>

text \<open>
  The state of the loop: the store, the set \<^verbatim>\<open>seen_theorems\<close> and the queue of
  (node, level) pairs.
\<close>

record gen_state =
  heap :: heap
  seen_theorems :: "string set"
  queue :: "(addr \<times> int) list"

text \<open>The body of \<^verbatim>\<open>for rule in rules\<close>, for one rule.\<close>

definition rule_step :: "addr \<Rightarrow> int \<Rightarrow> rule \<Rightarrow> gen_state \<Rightarrow> gen_state" where
  "rule_step current_node current_level rule st =
     (case rule (theorem_str (heap st ! current_node)) of
        None \<Rightarrow> st
      | Some new_theorem \<Rightarrow>
          if new_theorem \<in> seen_theorems st then st
          else
            let (child_node, h1) = alloc (heap st) (TheoremNode_init new_theorem (current_level + 1) None);
                h2 = add_child h1 current_node child_node
            in \<lparr>heap = h2,
                seen_theorems = insert new_theorem (seen_theorems st),
                queue = queue st @ [(child_node, current_level + 1)]\<rparr>)"

fun apply_rules :: "rule list \<Rightarrow> addr \<Rightarrow> int \<Rightarrow> gen_state \<Rightarrow> gen_state" where
  "apply_rules [] current_node current_level st = st"
| "apply_rules (rule # rules) current_node current_level st =
     apply_rules rules current_node current_level (rule_step current_node current_level rule st)"

text \<open>
  The weight of a queue entry that is \<open>d\<close> levels below the bound, for \<open>r\<close> rules:
  it bounds the number of iterations the entry can still cause.
\<close>

fun weight :: "nat \<Rightarrow> nat \<Rightarrow> nat" where
  "weight r 0 = 1"
| "weight r (Suc d) = Suc (r * weight r d)"

definition queue_weight :: "nat \<Rightarrow> int \<Rightarrow> (addr \<times> int) list \<Rightarrow> nat" where
  "queue_weight r max_level q = sum_list (map (\<lambda>(a, l). weight r (nat (max_level - l))) q)"

lemma queue_weight_append:
  "queue_weight r m (q @ q') = queue_weight r m q + queue_weight r m q'"
  by (simp add: queue_weight_def)

lemma queue_rule_step:
  "queue (rule_step a l rule st) = queue st \<or>
   queue (rule_step a l rule st) = queue st @ [(length (heap st), l + 1)]"
  by (simp add: rule_step_def alloc_def Let_def split: option.split)

lemma queue_weight_rule_step:
  "queue_weight r m (queue (rule_step a l rule st))
     \<le> queue_weight r m (queue st) + weight r (nat (m - (l + 1)))"
  using queue_rule_step [of a l rule st]
  by (auto simp: queue_weight_append) (simp add: queue_weight_def)

lemma queue_weight_apply_rules:
  "queue_weight r m (queue (apply_rules rules a l st))
     \<le> queue_weight r m (queue st) + length rules * weight r (nat (m - (l + 1)))"
proof (induction rules arbitrary: st)
  case Nil
  show ?case by simp
next
  case (Cons rule rules)
  have "queue_weight r m (queue (apply_rules (rule # rules) a l st))
          \<le> queue_weight r m (queue (rule_step a l rule st))
              + length rules * weight r (nat (m - (l + 1)))"
    using Cons.IH [of "rule_step a l rule st"] by simp
  also have "\<dots> \<le> queue_weight r m (queue st) + weight r (nat (m - (l + 1)))
                    + length rules * weight r (nat (m - (l + 1)))"
    using queue_weight_rule_step [of r m a l rule st] by simp
  finally show ?case by simp
qed

text \<open>
  \<^verbatim>\<open>while queue and queue[0][1] < max_level\<close>: the front entry is removed and every
  rule is applied to its node.
\<close>

function bfs_loop :: "rule list \<Rightarrow> int \<Rightarrow> gen_state \<Rightarrow> gen_state" where
  "bfs_loop rules max_level st =
     (case queue st of
        [] \<Rightarrow> st
      | (current_node, current_level) # rest \<Rightarrow>
          if current_level < max_level
          then bfs_loop rules max_level
                 (apply_rules rules current_node current_level (st\<lparr>queue := rest\<rparr>))
          else st)"
  by pat_completeness auto
termination
proof (relation "measure (\<lambda>(rules, m, st). queue_weight (length rules) m (queue st))", goal_cases)
  case 1
  show ?case by simp
next
  case (2 rules m st x rest a l)
  have d: "nat (m - l) = Suc (nat (m - (l + 1)))"
    using 2 by simp
  have "queue_weight (length rules) m (queue (apply_rules rules a l (st\<lparr>queue := rest\<rparr>)))
          \<le> queue_weight (length rules) m rest
              + length rules * weight (length rules) (nat (m - (l + 1)))"
    using queue_weight_apply_rules [of "length rules" m rules a l "st\<lparr>queue := rest\<rparr>"] by simp
  also have "\<dots> < queue_weight (length rules) m (queue st)"
  proof -
    have q: "queue st = (a, l) # rest"
      using 2 by simp
    show ?thesis
      by (simp add: q queue_weight_def d)
  qed
  finally show ?case by simp
qed

text \<open>
  The source raises nowhere, and neither do the rules; the result type has an error
  side so that ``returns a tree'' and ``signals an error'' are different values.
\<close>

datatype error = InvalidArgument

definition generate_theorem_tree_optimized ::
    "string \<Rightarrow> rule list \<Rightarrow> int \<Rightarrow> error + (addr \<times> heap)" where
  "generate_theorem_tree_optimized axiom rules max_level =
     (let (root, h) = alloc [] (TheoremNode_init axiom 0 None);
          st = \<lparr>heap = h, seen_theorems = {axiom}, queue = [(root, 0)]\<rparr>
      in Inr (root, heap (bfs_loop rules max_level st)))"

text \<open>
  A call site: the bound is optional, and \<^verbatim>\<open>max_level: int = 10\<close> is bound when
  the caller leaves it out.
\<close>

definition max_level_default :: int where
  "max_level_default = 10"

definition generate_call :: "string \<Rightarrow> rule list \<Rightarrow> int option \<Rightarrow> error + (addr \<times> heap)" where
  "generate_call axiom rules max_level_arg =
     generate_theorem_tree_optimized axiom rules
       (case max_level_arg of None \<Rightarrow> max_level_default | Some m \<Rightarrow> m)"

subsection \<open>The nodes of a tree\<close>

text \<open>
  The nodes of the tree under \<open>r\<close> are the addresses that are met from \<open>r\<close> along
  the children references.
\<close>

inductive reach :: "heap \<Rightarrow> addr \<Rightarrow> addr \<Rightarrow> bool" for h :: heap and r :: addr where
  reach_root: "reach h r r"
| reach_child: "reach h r a \<Longrightarrow> c \<in> set (children (h ! a)) \<Longrightarrow> reach h r c"

definition tree_theorems :: "heap \<Rightarrow> addr \<Rightarrow> string set" where
  "tree_theorems h r = {theorem_str (h ! a) | a. reach h r a}"

text \<open>
  The strings that one rule application derives from \<open>s\<close>, and the strings that at
  most \<open>k\<close> rule applications derive from the axiom. Both depend on the set of the
  rules only.
\<close>

definition succs :: "rule set \<Rightarrow> string \<Rightarrow> string set" where
  "succs R s = {t. \<exists>r\<in>R. r s = Some t}"

fun within :: "rule set \<Rightarrow> string \<Rightarrow> nat \<Rightarrow> string set" where
  "within R ax 0 = {ax}"
| "within R ax (Suc k) = within R ax k \<union> (\<Union>s\<in>within R ax k. succs R s)"

text \<open>The tree of the axiom \<open>MI\<close> under the four rules, down to level 2.\<close>

definition tree_MI_2 :: heap where
  "tree_MI_2 =
     [\<lparr>theorem_str = ''MI'', level = 0, parent = None, children = [1, 2]\<rparr>,
      \<lparr>theorem_str = ''MIU'', level = 1, parent = Some 0, children = [3]\<rparr>,
      \<lparr>theorem_str = ''MII'', level = 1, parent = Some 0, children = [4, 5]\<rparr>,
      \<lparr>theorem_str = ''MIUIU'', level = 2, parent = Some 1, children = []\<rparr>,
      \<lparr>theorem_str = ''MIIU'', level = 2, parent = Some 2, children = []\<rparr>,
      \<lparr>theorem_str = ''MIIII'', level = 2, parent = Some 2, children = []\<rparr>]"

text \<open>The same tree down to level 3.\<close>

definition tree_MI_3 :: heap where
  "tree_MI_3 =
     [\<lparr>theorem_str = ''MI'', level = 0, parent = None, children = [1, 2]\<rparr>,
      \<lparr>theorem_str = ''MIU'', level = 1, parent = Some 0, children = [3]\<rparr>,
      \<lparr>theorem_str = ''MII'', level = 1, parent = Some 0, children = [4, 5]\<rparr>,
      \<lparr>theorem_str = ''MIUIU'', level = 2, parent = Some 1, children = [6]\<rparr>,
      \<lparr>theorem_str = ''MIIU'', level = 2, parent = Some 2, children = [7]\<rparr>,
      \<lparr>theorem_str = ''MIIII'', level = 2, parent = Some 2, children = [8, 9, 10]\<rparr>,
      \<lparr>theorem_str = ''MIUIUIUIU'', level = 3, parent = Some 3, children = []\<rparr>,
      \<lparr>theorem_str = ''MIIUIIU'', level = 3, parent = Some 4, children = []\<rparr>,
      \<lparr>theorem_str = ''MIIIIU'', level = 3, parent = Some 5, children = []\<rparr>,
      \<lparr>theorem_str = ''MIIIIIIII'', level = 3, parent = Some 5, children = []\<rparr>,
      \<lparr>theorem_str = ''MUI'', level = 3, parent = Some 5, children = []\<rparr>]"

text \<open>
  The trees of the axiom \<open>MIIII\<close> down to level 2, under the four rules in their
  order and in the order Contract-III, Append-U, Double-tail, Drop-UU.
\<close>

definition tree_MIIII_2 :: heap where
  "tree_MIIII_2 =
     [\<lparr>theorem_str = ''MIIII'', level = 0, parent = None, children = [1, 2, 3]\<rparr>,
      \<lparr>theorem_str = ''MIIIIU'', level = 1, parent = Some 0, children = [4, 5]\<rparr>,
      \<lparr>theorem_str = ''MIIIIIIII'', level = 1, parent = Some 0, children = [6, 7, 8]\<rparr>,
      \<lparr>theorem_str = ''MUI'', level = 1, parent = Some 0, children = [9]\<rparr>,
      \<lparr>theorem_str = ''MIIIIUIIIIU'', level = 2, parent = Some 1, children = []\<rparr>,
      \<lparr>theorem_str = ''MUIU'', level = 2, parent = Some 1, children = []\<rparr>,
      \<lparr>theorem_str = ''MIIIIIIIIU'', level = 2, parent = Some 2, children = []\<rparr>,
      \<lparr>theorem_str = ''MIIIIIIIIIIIIIIII'', level = 2, parent = Some 2, children = []\<rparr>,
      \<lparr>theorem_str = ''MUIIIII'', level = 2, parent = Some 2, children = []\<rparr>,
      \<lparr>theorem_str = ''MUIUI'', level = 2, parent = Some 3, children = []\<rparr>]"

definition tree_MIIII_2_reordered :: heap where
  "tree_MIIII_2_reordered =
     [\<lparr>theorem_str = ''MIIII'', level = 0, parent = None, children = [1, 2, 3]\<rparr>,
      \<lparr>theorem_str = ''MUI'', level = 1, parent = Some 0, children = [4, 5]\<rparr>,
      \<lparr>theorem_str = ''MIIIIU'', level = 1, parent = Some 0, children = [6]\<rparr>,
      \<lparr>theorem_str = ''MIIIIIIII'', level = 1, parent = Some 0, children = [7, 8, 9]\<rparr>,
      \<lparr>theorem_str = ''MUIU'', level = 2, parent = Some 1, children = []\<rparr>,
      \<lparr>theorem_str = ''MUIUI'', level = 2, parent = Some 1, children = []\<rparr>,
      \<lparr>theorem_str = ''MIIIIUIIIIU'', level = 2, parent = Some 2, children = []\<rparr>,
      \<lparr>theorem_str = ''MUIIIII'', level = 2, parent = Some 3, children = []\<rparr>,
      \<lparr>theorem_str = ''MIIIIIIIIU'', level = 2, parent = Some 3, children = []\<rparr>,
      \<lparr>theorem_str = ''MIIIIIIIIIIIIIIII'', level = 2, parent = Some 3, children = []\<rparr>]"

subsection \<open>Invariants of the loop\<close>

text \<open>
  The store after one more child \<open>t\<close> of the node \<open>a\<close> was created: \<open>a\<close> has the new
  address as its last child, and the new node is at the end.
\<close>

definition grow :: "heap \<Rightarrow> addr \<Rightarrow> string \<Rightarrow> int \<Rightarrow> heap" where
  "grow h a t l =
     h[a := (h ! a)\<lparr>children := children (h ! a) @ [length h]\<rparr>]
       @ [\<lparr>theorem_str = t, level = l + 1, parent = Some a, children = []\<rparr>]"

definition children_valid :: "heap \<Rightarrow> bool" where
  "children_valid h = (\<forall>b<length h. \<forall>c\<in>set (children (h ! b)). c < length h)"

definition wf_heap :: "string \<Rightarrow> int \<Rightarrow> heap \<Rightarrow> bool" where
  "wf_heap ax m h =
     (h \<noteq> [] \<and> theorem_str (h ! 0) = ax \<and> level (h ! 0) = 0 \<and> parent (h ! 0) = None
      \<and> children_valid h
      \<and> distinct (map theorem_str h)
      \<and> (\<forall>b<length h. reach h 0 b)
      \<and> (\<forall>b<length h. b \<noteq> 0 \<longrightarrow>
            (\<exists>p<length h. parent (h ! b) = Some p \<and> level (h ! b) = level (h ! p) + 1
               \<and> b \<in> set (children (h ! p))))
      \<and> (\<forall>b<length h. 0 \<le> level (h ! b) \<and> level (h ! b) \<le> max 0 m))"

definition wf_state :: "string \<Rightarrow> int \<Rightarrow> gen_state \<Rightarrow> bool" where
  "wf_state ax m st =
     (wf_heap ax m (heap st)
      \<and> (\<forall>(b, k)\<in>set (queue st). b < length (heap st) \<and> level (heap st ! b) = k)
      \<and> seen_theorems st = theorem_str ` set (heap st))"

definition cur_ok :: "int \<Rightarrow> addr \<Rightarrow> int \<Rightarrow> gen_state \<Rightarrow> bool" where
  "cur_ok m a l st = (a < length (heap st) \<and> level (heap st ! a) = l \<and> l < m)"

text \<open>
  A store extends another one when it keeps the theorem, level and parent of every
  node of that one.
\<close>

definition extends :: "heap \<Rightarrow> heap \<Rightarrow> bool" where
  "extends h h' =
     (length h \<le> length h'
      \<and> (\<forall>b<length h. theorem_str (h' ! b) = theorem_str (h ! b)
            \<and> level (h' ! b) = level (h ! b) \<and> parent (h' ! b) = parent (h ! b)))"

text \<open>
  The invariants of the breadth-first search: a node is expanded when every string
  that a rule derives from it is in the store, at most one level below; the store is
  sound when every node's string is derivable in as many steps as its level says.
\<close>

definition expanded :: "rule set \<Rightarrow> heap \<Rightarrow> addr \<Rightarrow> bool" where
  "expanded R h b =
     (\<forall>r\<in>R. \<forall>t. r (theorem_str (h ! b)) = Some t \<longrightarrow>
        (\<exists>c<length h. theorem_str (h ! c) = t \<and> level (h ! c) \<le> level (h ! b) + 1))"

definition sound :: "rule set \<Rightarrow> string \<Rightarrow> heap \<Rightarrow> bool" where
  "sound R ax h = (\<forall>b<length h. theorem_str (h ! b) \<in> within R ax (nat (level (h ! b))))"

definition for_inv :: "rule set \<Rightarrow> string \<Rightarrow> addr \<Rightarrow> int \<Rightarrow> rule set \<Rightarrow> gen_state \<Rightarrow> bool" where
  "for_inv R ax a l D st =
     (sorted (map snd (queue st))
      \<and> (\<forall>(b, k)\<in>set (queue st). l \<le> k)
      \<and> (\<forall>b<length (heap st). level (heap st ! b) \<le> l + 1)
      \<and> (\<forall>b<length (heap st). b \<noteq> a \<longrightarrow> b \<notin> fst ` set (queue st) \<longrightarrow> expanded R (heap st) b)
      \<and> expanded D (heap st) a
      \<and> sound R ax (heap st))"

definition bfs_inv :: "rule set \<Rightarrow> string \<Rightarrow> gen_state \<Rightarrow> bool" where
  "bfs_inv R ax st =
     (sorted (map snd (queue st))
      \<and> (queue st \<noteq> [] \<longrightarrow> (\<forall>b<length (heap st). level (heap st ! b) \<le> snd (hd (queue st)) + 1))
      \<and> (\<forall>b<length (heap st). b \<notin> fst ` set (queue st) \<longrightarrow> expanded R (heap st) b)
      \<and> sound R ax (heap st))"

section \<open>Properties of the rules\<close>

lemmas rule_eval =
  rule_0_def rule_1_def rule_2_def rule_3_def endswith_def startswith_def contains_def
  suffix_to_prefix sublist_Cons_right

lemma rules_MI:
  "rule_0 ''MI'' = Some ''MIU''" "rule_1 ''MI'' = Some ''MII''"
  "rule_2 ''MI'' = None" "rule_3 ''MI'' = None"
  by (simp_all add: rule_0_def rule_1_def rule_2_def rule_3_def endswith_def startswith_def
      contains_def suffix_to_prefix sublist_Cons_right)

lemma rules_empty:
  "rule_0 '''' = None" "rule_1 '''' = None" "rule_2 '''' = None" "rule_3 '''' = None"
  by (simp_all add: rule_0_def rule_1_def rule_2_def rule_3_def endswith_def startswith_def
      contains_def)

lemma length_replace_first:
  "sublist old s \<Longrightarrow> length (replace_first old new s) + length old = length s + length new"
proof (induction s)
  case Nil
  then show ?case by simp
next
  case (Cons c cs)
  show ?case
  proof (cases "prefix old (c # cs)")
    case True
    then have "length old \<le> length (c # cs)"
      by (rule prefix_length_le)
    with True show ?thesis by simp
  next
    case False
    with Cons.prems have "sublist old cs"
      by (simp add: sublist_Cons_right)
    with Cons.IH False show ?thesis by simp
  qed
qed

lemma rule_0_changes: "rule_0 s = Some t \<Longrightarrow> t \<noteq> s \<and> s \<noteq> ''M''"
  by (auto simp: rule_0_def endswith_def suffix_to_prefix split: if_splits)

lemma rule_1_changes: "rule_1 s = Some t \<Longrightarrow> (t = s) = (s = ''M'')"
  by (cases s) (auto simp: rule_1_def startswith_def split: if_splits)

lemma rule_2_changes: "rule_2 s = Some t \<Longrightarrow> t \<noteq> s \<and> s \<noteq> ''M''"
proof -
  assume a: "rule_2 s = Some t"
  then have sub: "sublist ''III'' s" and t: "t = replace_first ''III'' ''U'' s"
    by (auto simp: rule_2_def contains_def split: if_splits)
  have "length t + 3 = length s + 1"
    using length_replace_first [OF sub, of "''U''"] t by simp
  moreover have "s \<noteq> ''M''"
    using sub by (auto simp: sublist_Cons_right)
  ultimately show ?thesis by auto
qed

lemma rule_3_changes: "rule_3 s = Some t \<Longrightarrow> t \<noteq> s \<and> s \<noteq> ''M''"
proof -
  assume a: "rule_3 s = Some t"
  then have sub: "sublist ''UU'' s" and t: "t = replace_first ''UU'' '''' s"
    by (auto simp: rule_3_def contains_def split: if_splits)
  have "length t + 2 = length s"
    using length_replace_first [OF sub, of "''''"] t by simp
  moreover have "s \<noteq> ''M''"
    using sub by (auto simp: sublist_Cons_right)
  ultimately show ?thesis by auto
qed

text \<open>
  Claim C6, as stated, fails: Double-tail is applicable to the one-letter string
  \<open>M\<close> (it starts with \<open>M\<close>), and doubling the empty rest returns \<open>M\<close> itself.
\<close>

theorem rule_1_M_unchanged: "rule_1 \<in> set RULES \<and> rule_1 ''M'' = Some ''M''"
  by (simp add: RULES_def rule_1_def startswith_def)

text \<open>
  Claim C6, amended: when one of the four rules is applicable to a string \<open>s\<close>, its
  output equals \<open>s\<close> exactly when \<open>s\<close> is the one-letter string \<open>M\<close> (where only
  Double-tail is applicable); on every other string an applicable rule changes the string.
\<close>

theorem applicable_rule_changes:
  "r \<in> set RULES \<Longrightarrow> r s = Some t \<Longrightarrow> (t = s) = (s = ''M'')"
  using rule_0_changes [of s t] rule_1_changes [of s t] rule_2_changes [of s t]
    rule_3_changes [of s t]
  by (auto simp: RULES_def)

theorem applicable_rule_changes_witness:
  "rule_2 \<in> set RULES \<and> rule_2 ''MIIII'' = Some ''MUI'' \<and> (''MUI'' = ''MIIII'') = (''MIIII'' = ''M'')"
proof -
  have r: "rule_2 \<in> set RULES"
    by (simp add: RULES_def)
  have a: "rule_2 ''MIIII'' = Some ''MUI''"
    by (simp add: rule_eval)
  show ?thesis
    using r a applicable_rule_changes [OF r a] by simp
qed

section \<open>The store\<close>

lemma add_child_alloc:
  "a < length h \<Longrightarrow>
   add_child (h @ [TheoremNode_init t (l + 1) None]) a (length h) = grow h a t l"
  by (simp add: add_child_def grow_def TheoremNode_init_def Let_def nth_append list_update_append)

lemma length_grow [simp]: "length (grow h a t l) = Suc (length h)"
  by (simp add: grow_def)

lemma grow_nth:
  "b < length h \<Longrightarrow>
   grow h a t l ! b =
     (if b = a then (h ! b)\<lparr>children := children (h ! b) @ [length h]\<rparr> else h ! b)"
  by (cases "a < length h") (simp_all add: grow_def nth_append nth_list_update)

lemma grow_old:
  "b < length h \<Longrightarrow> theorem_str (grow h a t l ! b) = theorem_str (h ! b)"
  "b < length h \<Longrightarrow> level (grow h a t l ! b) = level (h ! b)"
  "b < length h \<Longrightarrow> parent (grow h a t l ! b) = parent (h ! b)"
  "b < length h \<Longrightarrow> children (grow h a t l ! b) =
      (if b = a then children (h ! b) @ [length h] else children (h ! b))"
  by (simp_all add: grow_nth)

lemma grow_new:
  "grow h a t l ! length h = \<lparr>theorem_str = t, level = l + 1, parent = Some a, children = []\<rparr>"
  by (simp add: grow_def nth_append)

lemma rule_step_cases:
  assumes "a < length (heap st)"
  obtains (same) "rule_step a l r st = st"
      "\<forall>t. r (theorem_str (heap st ! a)) = Some t \<longrightarrow> t \<in> seen_theorems st"
  | (new) t where "r (theorem_str (heap st ! a)) = Some t" "t \<notin> seen_theorems st"
      "rule_step a l r st =
         \<lparr>heap = grow (heap st) a t l,
          seen_theorems = insert t (seen_theorems st),
          queue = queue st @ [(length (heap st), l + 1)]\<rparr>"
  using assms
  by (auto simp: rule_step_def alloc_def Let_def add_child_alloc split: option.splits if_splits)


lemma map_theorem_grow: "map theorem_str (grow h a t l) = map theorem_str h @ [t]"
  by (rule nth_equalityI) (auto simp: nth_append grow_old grow_new less_Suc_eq)

lemma reach_bound:
  "reach h r b \<Longrightarrow> r < length h \<Longrightarrow> children_valid h \<Longrightarrow> b < length h"
  by (induction rule: reach.induct) (auto simp: children_valid_def)

lemma reach_grow:
  assumes "reach h r b" "r < length h" "children_valid h"
  shows "reach (grow h a t l) r b"
  using assms
proof (induction rule: reach.induct)
  case reach_root
  show ?case by (rule reach.reach_root)
next
  case (reach_child x c)
  have x: "x < length h"
    using reach_child.hyps(1) reach_child.prems by (rule reach_bound)
  have "c \<in> set (children (grow h a t l ! x))"
    using reach_child.hyps(2) x by (auto simp: grow_old)
  with reach_child.IH [OF reach_child.prems] show ?case
    by (rule reach.reach_child)
qed

lemma wf_heap_grow:
  assumes wf: "wf_heap ax m h" and a: "a < length h" and l: "level (h ! a) = l" "l < m"
    and t: "t \<notin> theorem_str ` set h"
  shows "wf_heap ax m (grow h a t l)"
proof -
  let ?g = "grow h a t l"
  have ne: "h \<noteq> []" and cv: "children_valid h" and d: "distinct (map theorem_str h)"
    and re: "\<forall>b<length h. reach h 0 b"
    and pa: "\<forall>b<length h. b \<noteq> 0 \<longrightarrow>
            (\<exists>p<length h. parent (h ! b) = Some p \<and> level (h ! b) = level (h ! p) + 1
               \<and> b \<in> set (children (h ! p)))"
    and lv: "\<forall>b<length h. 0 \<le> level (h ! b) \<and> level (h ! b) \<le> max 0 m"
    using wf by (simp_all add: wf_heap_def)
  have z: "0 < length h" using ne by simp
  have 1: "?g \<noteq> []"
    using length_grow [of h a t l] by (metis length_0_conv nat.distinct(1))
  have 2: "theorem_str (?g ! 0) = ax \<and> level (?g ! 0) = 0 \<and> parent (?g ! 0) = None"
    using wf z by (simp add: wf_heap_def grow_old)
  have 3: "children_valid ?g"
    unfolding children_valid_def
  proof (intro allI impI ballI)
    fix b c assume b: "b < length ?g" and c: "c \<in> set (children (?g ! b))"
    show "c < length ?g"
    proof (cases "b < length h")
      case True
      with c cv show ?thesis
        by (auto simp: grow_old children_valid_def less_Suc_eq split: if_splits)
    next
      case False
      with b have "b = length h" by simp
      with c show ?thesis by (simp add: grow_new)
    qed
  qed
  have 4: "distinct (map theorem_str ?g)"
    using d t by (simp add: map_theorem_grow)
  have ra: "reach ?g 0 a"
    using re a z cv by (simp add: reach_grow)
  have 5: "\<forall>b<length ?g. reach ?g 0 b"
  proof (intro allI impI)
    fix b assume b: "b < length ?g"
    show "reach ?g 0 b"
    proof (cases "b < length h")
      case True
      with re z cv show ?thesis by (simp add: reach_grow)
    next
      case False
      with b have e: "b = length h" by simp
      have "length h \<in> set (children (?g ! a))"
        using a by (simp add: grow_old)
      with ra e show ?thesis by (auto intro: reach.reach_child)
    qed
  qed
  have 6: "\<forall>b<length ?g. b \<noteq> 0 \<longrightarrow>
            (\<exists>p<length ?g. parent (?g ! b) = Some p \<and> level (?g ! b) = level (?g ! p) + 1
               \<and> b \<in> set (children (?g ! p)))"
  proof (intro allI impI)
    fix b assume b: "b < length ?g" and b0: "b \<noteq> 0"
    show "\<exists>p<length ?g. parent (?g ! b) = Some p \<and> level (?g ! b) = level (?g ! p) + 1
               \<and> b \<in> set (children (?g ! p))"
    proof (cases "b < length h")
      case True
      with pa b0 obtain p where p: "p < length h" "parent (h ! b) = Some p"
          "level (h ! b) = level (h ! p) + 1" "b \<in> set (children (h ! p))"
        by blast
      with True have "p < length ?g \<and> parent (?g ! b) = Some p
          \<and> level (?g ! b) = level (?g ! p) + 1 \<and> b \<in> set (children (?g ! p))"
        by (auto simp: grow_old)
      then show ?thesis by blast
    next
      case False
      with b have e: "b = length h" by simp
      have "a < length ?g \<and> parent (?g ! b) = Some a
          \<and> level (?g ! b) = level (?g ! a) + 1 \<and> b \<in> set (children (?g ! a))"
        using a l e by (simp add: grow_old grow_new)
      then show ?thesis by blast
    qed
  qed
  have 7: "\<forall>b<length ?g. 0 \<le> level (?g ! b) \<and> level (?g ! b) \<le> max 0 m"
  proof (intro allI impI)
    fix b assume b: "b < length ?g"
    show "0 \<le> level (?g ! b) \<and> level (?g ! b) \<le> max 0 m"
    proof (cases "b < length h")
      case True
      with lv show ?thesis by (simp add: grow_old)
    next
      case False
      with b have e: "b = length h" by simp
      have "0 \<le> l" using lv a l by auto
      with l e show ?thesis by (simp add: grow_new)
    qed
  qed
  show ?thesis
    unfolding wf_heap_def using 1 2 3 4 5 6 7 by blast
qed


declare bfs_loop.simps [simp del]

lemma bfs_loop_Nil: "queue st = [] \<Longrightarrow> bfs_loop rs m st = st"
  by (subst bfs_loop.simps) simp

lemma bfs_loop_stop: "queue st = (a, l) # rest \<Longrightarrow> \<not> l < m \<Longrightarrow> bfs_loop rs m st = st"
  by (subst bfs_loop.simps) simp

lemma bfs_loop_step:
  "queue st = (a, l) # rest \<Longrightarrow> l < m \<Longrightarrow>
   bfs_loop rs m st = bfs_loop rs m (apply_rules rs a l (st\<lparr>queue := rest\<rparr>))"
  by (subst bfs_loop.simps) simp

lemma bfs_loop_invariant:
  assumes "P st"
    and "\<And>st a l rest. P st \<Longrightarrow> queue st = (a, l) # rest \<Longrightarrow> l < m \<Longrightarrow>
           P (apply_rules rs a l (st\<lparr>queue := rest\<rparr>))"
  shows "P (bfs_loop rs m st)"
  using assms
proof (induction rs m st rule: bfs_loop.induct)
  case (1 rules max_level st)
  show ?case
  proof (cases "queue st")
    case Nil
    with "1.prems"(1) show ?thesis by (simp add: bfs_loop_Nil)
  next
    case (Cons x rest)
    obtain a l where x: "x = (a, l)" by (cases x)
    have q: "queue st = (a, l) # rest"
      using Cons x by simp
    show ?thesis
    proof (cases "l < max_level")
      case True
      have "P (apply_rules rules a l (st\<lparr>queue := rest\<rparr>))"
        using "1.prems"(1) q True by (rule "1.prems"(2))
      then have "P (bfs_loop rules max_level (apply_rules rules a l (st\<lparr>queue := rest\<rparr>)))"
        using "1.prems"(2) by (rule "1.IH" [OF Cons x [symmetric] True])
      then show ?thesis
        by (simp add: bfs_loop_step [OF q True])
    next
      case False
      with "1.prems"(1) q show ?thesis by (simp add: bfs_loop_stop)
    qed
  qed
qed

section \<open>The loop keeps the tree well formed\<close>

lemma set_grow: "theorem_str ` set (grow h a t l) = insert t (theorem_str ` set h)"
  using map_theorem_grow [of h a t l] by (metis list.set_map set_append Un_insert_right
      list.simps(15) sup_bot.right_neutral empty_set)

lemma rule_step_wf:
  assumes wf: "wf_state ax m st" and c: "cur_ok m a l st"
  shows "wf_state ax m (rule_step a l r st) \<and> cur_ok m a l (rule_step a l r st)"
proof -
  have a: "a < length (heap st)"
    using c by (simp add: cur_ok_def)
  from a show ?thesis
  proof (cases rule: rule_step_cases [where l = l and r = r])
    case same
    with wf c show ?thesis by simp
  next
    case (new t)
    have t: "t \<notin> theorem_str ` set (heap st)"
      using new(2) wf by (simp add: wf_state_def)
    have "wf_heap ax m (grow (heap st) a t l)"
      using wf c t by (simp add: wf_state_def cur_ok_def wf_heap_grow)
    moreover have "\<forall>(b, k)\<in>set (queue st @ [(length (heap st), l + 1)]).
        b < length (grow (heap st) a t l) \<and> level (grow (heap st) a t l ! b) = k"
      using wf by (auto simp: wf_state_def grow_old grow_new)
    moreover have "insert t (seen_theorems st) = theorem_str ` set (grow (heap st) a t l)"
      using wf by (simp add: wf_state_def set_grow)
    moreover have "cur_ok m a l (rule_step a l r st)"
      using c by (simp add: new(3) cur_ok_def grow_old)
    ultimately show ?thesis
      by (simp add: new(3) wf_state_def)
  qed
qed

lemma apply_rules_wf:
  "wf_state ax m st \<Longrightarrow> cur_ok m a l st \<Longrightarrow>
   wf_state ax m (apply_rules rs a l st) \<and> cur_ok m a l (apply_rules rs a l st)"
proof (induction rs arbitrary: st)
  case Nil
  then show ?case by simp
next
  case (Cons r rs)
  have "wf_state ax m (rule_step a l r st) \<and> cur_ok m a l (rule_step a l r st)"
    using Cons.prems by (rule rule_step_wf)
  then show ?case
    using Cons.IH [of "rule_step a l r st"] by simp
qed

lemma wf_state_pop:
  assumes "wf_state ax m st" "queue st = (a, l) # rest" "l < m"
  shows "wf_state ax m (st\<lparr>queue := rest\<rparr>) \<and> cur_ok m a l (st\<lparr>queue := rest\<rparr>)"
  using assms by (auto simp: wf_state_def cur_ok_def)

lemma bfs_loop_wf: "wf_state ax m st \<Longrightarrow> wf_state ax m (bfs_loop rs m st)"
proof (rule bfs_loop_invariant [where P = "wf_state ax m"], assumption)
  fix st a l rest
  assume "wf_state ax m st" "queue st = (a, l) # rest" "l < m"
  then have "wf_state ax m (st\<lparr>queue := rest\<rparr>) \<and> cur_ok m a l (st\<lparr>queue := rest\<rparr>)"
    by (rule wf_state_pop)
  then show "wf_state ax m (apply_rules rs a l (st\<lparr>queue := rest\<rparr>))"
    by (simp add: apply_rules_wf)
qed

lemma reach_0_init: "reach [n] 0 b \<Longrightarrow> children n = [] \<Longrightarrow> b = 0"
  by (induction rule: reach.induct) auto

lemma wf_state_init:
  "wf_state ax m \<lparr>heap = [TheoremNode_init ax 0 None], seen_theorems = {ax}, queue = [(0, 0)]\<rparr>"
  by (auto simp: wf_state_def wf_heap_def TheoremNode_init_def children_valid_def
      intro: reach.reach_root)

lemma generate_wf:
  assumes "generate_theorem_tree_optimized ax rs m = Inr (root, h)"
  shows "root = 0 \<and> wf_heap ax m h"
proof -
  have "wf_state ax m (bfs_loop rs m
      \<lparr>heap = [TheoremNode_init ax 0 None], seen_theorems = {ax}, queue = [(0, 0)]\<rparr>)"
    using wf_state_init by (rule bfs_loop_wf)
  with assms show ?thesis
    by (auto simp: generate_theorem_tree_optimized_def alloc_def Let_def wf_state_def)
qed

lemma generate_returns:
  "\<exists>h. generate_theorem_tree_optimized ax rs m = Inr (0, h)"
  by (simp add: generate_theorem_tree_optimized_def alloc_def Let_def)

lemma generate_reach:
  assumes "generate_theorem_tree_optimized ax rs m = Inr (root, h)"
  shows "reach h root a \<longleftrightarrow> a < length h"
proof -
  have w: "root = 0" "wf_heap ax m h"
    using generate_wf [OF assms] by simp_all
  then have "0 < length h" "children_valid h" "\<forall>b<length h. reach h 0 b"
    by (simp_all add: wf_heap_def)
  with w(1) show ?thesis
    by (auto dest: reach_bound)
qed

section \<open>A larger bound continues the run of a smaller one\<close>

lemma bfs_loop_mono:
  "m \<le> m' \<Longrightarrow> bfs_loop rs m' (bfs_loop rs m st) = bfs_loop rs m' st"
proof (induction rs m st rule: bfs_loop.induct)
  case (1 rules max_level st)
  show ?case
  proof (cases "queue st")
    case Nil
    then show ?thesis by (simp add: bfs_loop_Nil)
  next
    case (Cons x rest)
    obtain a l where x: "x = (a, l)" by (cases x)
    have q: "queue st = (a, l) # rest"
      using Cons x by simp
    show ?thesis
    proof (cases "l < max_level")
      case True
      then have l': "l < m'" using "1.prems" by simp
      show ?thesis
        using "1.IH" [OF Cons x [symmetric] True "1.prems"]
        by (simp add: bfs_loop_step [OF q True] bfs_loop_step [OF q l'])
    next
      case False
      with q show ?thesis by (simp add: bfs_loop_stop)
    qed
  qed
qed

lemma extends_refl: "extends h h"
  by (simp add: extends_def)

lemma extends_grow: "extends h0 h \<Longrightarrow> extends h0 (grow h a t l)"
  by (simp add: extends_def grow_old)

lemma rule_step_extends:
  "a < length (heap st) \<Longrightarrow> extends h0 (heap st) \<Longrightarrow> extends h0 (heap (rule_step a l r st))"
  by (cases rule: rule_step_cases [where l = l and r = r and st = st and a = a])
    (simp_all add: extends_grow)


lemma length_rule_step: "length (heap st) \<le> length (heap (rule_step a l r st))"
  by (simp add: rule_step_def alloc_def add_child_def Let_def split: option.split)

lemma apply_rules_extends:
  "a < length (heap st) \<Longrightarrow> extends h0 (heap st) \<Longrightarrow>
   extends h0 (heap (apply_rules rs a l st))"
proof (induction rs arbitrary: st)
  case Nil
  then show ?case by simp
next
  case (Cons r rs)
  have "a < length (heap (rule_step a l r st))"
    using Cons.prems(1) length_rule_step [of st a l r] by simp
  moreover have "extends h0 (heap (rule_step a l r st))"
    using Cons.prems by (rule rule_step_extends)
  ultimately show ?case
    using Cons.IH [of "rule_step a l r st"] by simp
qed

lemma wf_state_mono: "wf_state ax m st \<Longrightarrow> m \<le> m' \<Longrightarrow> wf_state ax m' st"
  by (fastforce simp: wf_state_def wf_heap_def)

lemma bfs_loop_extends:
  assumes "wf_state ax m st"
  shows "extends (heap st) (heap (bfs_loop rs m st))"
proof -
  have "wf_state ax m (bfs_loop rs m st) \<and> extends (heap st) (heap (bfs_loop rs m st))"
  proof (rule bfs_loop_invariant [where P = "\<lambda>s. wf_state ax m s \<and> extends (heap st) (heap s)"])
    show "wf_state ax m st \<and> extends (heap st) (heap st)"
      using assms by (simp add: extends_refl)
  next
    fix s a l rest
    assume p: "wf_state ax m s \<and> extends (heap st) (heap s)"
      and q: "queue s = (a, l) # rest" and l: "l < m"
    have w: "wf_state ax m (s\<lparr>queue := rest\<rparr>) \<and> cur_ok m a l (s\<lparr>queue := rest\<rparr>)"
      using wf_state_pop [of ax m s a l rest] p q l by simp
    then have "a < length (heap (s\<lparr>queue := rest\<rparr>))"
      by (simp add: cur_ok_def)
    moreover have "extends (heap st) (heap (s\<lparr>queue := rest\<rparr>))"
      using p by simp
    ultimately have "extends (heap st) (heap (apply_rules rs a l (s\<lparr>queue := rest\<rparr>)))"
      by (rule apply_rules_extends)
    then show "wf_state ax m (apply_rules rs a l (s\<lparr>queue := rest\<rparr>))
        \<and> extends (heap st) (heap (apply_rules rs a l (s\<lparr>queue := rest\<rparr>)))"
      using w by (simp add: apply_rules_wf)
  qed
  then show ?thesis by simp
qed

section \<open>The search finds exactly the strings within the bound\<close>

lemma within_mono: "j \<le> k \<Longrightarrow> within R ax j \<subseteq> within R ax k"
  by (induction k) (auto simp: le_Suc_eq)

lemma expanded_grow:
  "expanded D h b \<Longrightarrow> b < length h \<Longrightarrow> expanded D (grow h a t l) b"
  unfolding expanded_def
proof (intro ballI allI impI)
  fix r u
  assume e: "\<forall>r\<in>D. \<forall>t. r (theorem_str (h ! b)) = Some t \<longrightarrow>
        (\<exists>c<length h. theorem_str (h ! c) = t \<and> level (h ! c) \<le> level (h ! b) + 1)"
    and b: "b < length h" and r: "r \<in> D"
    and u: "r (theorem_str (grow h a t l ! b)) = Some u"
  from u b have "r (theorem_str (h ! b)) = Some u"
    by (simp add: grow_old)
  with e r obtain c where "c < length h" "theorem_str (h ! c) = u"
      "level (h ! c) \<le> level (h ! b) + 1"
    by blast
  with b have "c < length (grow h a t l) \<and> theorem_str (grow h a t l ! c) = u
      \<and> level (grow h a t l ! c) \<le> level (grow h a t l ! b) + 1"
    by (simp add: grow_old)
  then show "\<exists>c<length (grow h a t l). theorem_str (grow h a t l ! c) = u
      \<and> level (grow h a t l ! c) \<le> level (grow h a t l ! b) + 1"
    by blast
qed

lemma sound_grow:
  assumes s: "sound R ax h" and a: "a < length h" and l: "level (h ! a) = l" "0 \<le> l"
    and r: "r \<in> R" "r (theorem_str (h ! a)) = Some t"
  shows "sound R ax (grow h a t l)"
  unfolding sound_def
proof (intro allI impI)
  fix b assume b: "b < length (grow h a t l)"
  show "theorem_str (grow h a t l ! b) \<in> within R ax (nat (level (grow h a t l ! b)))"
  proof (cases "b < length h")
    case True
    with s show ?thesis by (simp add: sound_def grow_old)
  next
    case False
    with b have e: "b = length h" by simp
    have "theorem_str (h ! a) \<in> within R ax (nat l)"
      using s a l by (auto simp: sound_def)
    moreover have "t \<in> succs R (theorem_str (h ! a))"
      using r by (auto simp: succs_def)
    moreover have "nat (l + 1) = Suc (nat l)"
      using l by simp
    ultimately show ?thesis
      by (auto simp: e grow_new)
  qed
qed


lemma expanded_insert:
  "expanded {r} h a \<Longrightarrow> expanded D h a \<Longrightarrow> expanded (insert r D) h a"
  by (auto simp: expanded_def)

lemma rule_step_for_inv:
  assumes wf: "wf_state ax m st" and c: "cur_ok m a l st" and f: "for_inv R ax a l D st"
    and r: "r \<in> R"
  shows "for_inv R ax a l (insert r D) (rule_step a l r st)"
proof -
  let ?h = "heap st"
  have a: "a < length ?h" and la: "level (?h ! a) = l"
    using c by (simp_all add: cur_ok_def)
  have seen: "seen_theorems st = theorem_str ` set ?h"
    and qv: "\<forall>(b, k)\<in>set (queue st). b < length ?h \<and> level (?h ! b) = k"
    and lv: "\<forall>b<length ?h. 0 \<le> level (?h ! b)"
    using wf by (simp_all add: wf_state_def wf_heap_def)
  have l0: "0 \<le> l"
    using lv a la by auto
  have f1: "sorted (map snd (queue st))" and f2: "\<forall>(b, k)\<in>set (queue st). l \<le> k"
    and f3: "\<forall>b<length ?h. level (?h ! b) \<le> l + 1"
    and f4: "\<forall>b<length ?h. b \<noteq> a \<longrightarrow> b \<notin> fst ` set (queue st) \<longrightarrow> expanded R ?h b"
    and f5: "expanded D ?h a" and f6: "sound R ax ?h"
    using f by (simp_all add: for_inv_def)
  from a show ?thesis
  proof (cases rule: rule_step_cases [where l = l and r = r])
    case same
    have "expanded {r} ?h a"
      unfolding expanded_def
    proof (intro ballI allI impI)
      fix r' t assume "r' \<in> {r}" and t: "r' (theorem_str (?h ! a)) = Some t"
      then have "t \<in> theorem_str ` set ?h"
        using same(2) seen by auto
      then obtain c where c: "c < length ?h" "theorem_str (?h ! c) = t"
        by (auto simp: in_set_conv_nth)
      then have "level (?h ! c) \<le> level (?h ! a) + 1"
        using f3 la by simp
      with c show "\<exists>c<length ?h. theorem_str (?h ! c) = t
          \<and> level (?h ! c) \<le> level (?h ! a) + 1"
        by blast
    qed
    then have "expanded (insert r D) ?h a"
      using f5 by (rule expanded_insert)
    with f show ?thesis
      by (simp add: same(1) for_inv_def)
  next
    case (new t)
    let ?g = "grow ?h a t l"
    let ?q = "queue st @ [(length ?h, l + 1)]"
    have ql: "\<forall>(b, k)\<in>set (queue st). k \<le> l + 1"
      using qv f3 by auto
    have 1: "sorted (map snd ?q)"
      using f1 ql by (auto simp: sorted_append)
    have 2: "\<forall>(b, k)\<in>set ?q. l \<le> k"
      using f2 by auto
    have 3: "\<forall>b<length ?g. level (?g ! b) \<le> l + 1"
    proof (intro allI impI)
      fix b assume "b < length ?g"
      then consider "b < length ?h" | "b = length ?h"
        by (auto simp: less_Suc_eq)
      then show "level (?g ! b) \<le> l + 1"
        using f3 by cases (simp_all add: grow_old grow_new)
    qed
    have 4: "\<forall>b<length ?g. b \<noteq> a \<longrightarrow> b \<notin> fst ` set ?q \<longrightarrow> expanded R ?g b"
    proof (intro allI impI)
      fix b assume b: "b < length ?g" "b \<noteq> a" "b \<notin> fst ` set ?q"
      then have "b \<noteq> length ?h" "b \<notin> fst ` set (queue st)"
        by auto
      with b have bl: "b < length ?h"
        by simp
      with f4 b(2) \<open>b \<notin> fst ` set (queue st)\<close> have "expanded R ?h b"
        by blast
      then show "expanded R ?g b"
        using bl by (rule expanded_grow)
    qed
    have "expanded {r} ?g a"
      unfolding expanded_def
    proof (intro ballI allI impI)
      fix r' u assume "r' \<in> {r}" and "r' (theorem_str (?g ! a)) = Some u"
      then have "u = t"
        using new(1) a by (simp add: grow_old)
      then have "length ?h < length ?g \<and> theorem_str (?g ! length ?h) = u
          \<and> level (?g ! length ?h) \<le> level (?g ! a) + 1"
        using a la by (simp add: grow_old grow_new)
      then show "\<exists>c<length ?g. theorem_str (?g ! c) = u \<and> level (?g ! c) \<le> level (?g ! a) + 1"
        by blast
    qed
    moreover have "expanded D ?g a"
      using f5 a by (rule expanded_grow)
    ultimately have 5: "expanded (insert r D) ?g a"
      by (rule expanded_insert)
    have 6: "sound R ax ?g"
      using f6 a la l0 r new(1) by (rule sound_grow)
    show ?thesis
      using 1 2 3 4 5 6 by (simp add: new(3) for_inv_def)
  qed
qed

lemma apply_rules_for_inv:
  "wf_state ax m st \<Longrightarrow> cur_ok m a l st \<Longrightarrow> for_inv R ax a l D st \<Longrightarrow> set rs \<subseteq> R \<Longrightarrow>
   for_inv R ax a l (D \<union> set rs) (apply_rules rs a l st)"
proof (induction rs arbitrary: st D)
  case Nil
  then show ?case by simp
next
  case (Cons r rs)
  have r: "r \<in> R" and rs: "set rs \<subseteq> R"
    using Cons.prems(4) by simp_all
  have w: "wf_state ax m (rule_step a l r st) \<and> cur_ok m a l (rule_step a l r st)"
    using Cons.prems(1,2) by (rule rule_step_wf)
  have "for_inv R ax a l (insert r D) (rule_step a l r st)"
    using Cons.prems(1,2,3) r by (rule rule_step_for_inv)
  then have "for_inv R ax a l (insert r D \<union> set rs) (apply_rules rs a l (rule_step a l r st))"
    using w rs Cons.IH [of "rule_step a l r st" "insert r D"] by simp
  then show ?case by simp
qed


lemma bfs_inv_pop:
  assumes b: "bfs_inv R ax st" and q: "queue st = (a, l) # rest"
  shows "for_inv R ax a l {} (st\<lparr>queue := rest\<rparr>)"
proof -
  have "sorted (map snd rest)" "\<forall>(b, k)\<in>set rest. l \<le> k"
    using b q by (auto simp: bfs_inv_def)
  moreover have "\<forall>b<length (heap st). level (heap st ! b) \<le> l + 1"
    using b q by (simp add: bfs_inv_def)
  moreover have "\<forall>b<length (heap st). b \<noteq> a \<longrightarrow> b \<notin> fst ` set rest \<longrightarrow>
      expanded R (heap st) b"
    using b q by (simp add: bfs_inv_def)
  moreover have "expanded {} (heap st) a"
    by (simp add: expanded_def)
  moreover have "sound R ax (heap st)"
    using b by (simp add: bfs_inv_def)
  ultimately show ?thesis
    by (simp add: for_inv_def)
qed

lemma for_inv_done:
  assumes f: "for_inv R ax a l R st"
  shows "bfs_inv R ax st"
proof -
  have f1: "sorted (map snd (queue st))" and f2: "\<forall>(b, k)\<in>set (queue st). l \<le> k"
    and f3: "\<forall>b<length (heap st). level (heap st ! b) \<le> l + 1"
    and f4: "\<forall>b<length (heap st). b \<noteq> a \<longrightarrow> b \<notin> fst ` set (queue st) \<longrightarrow>
      expanded R (heap st) b"
    and f5: "expanded R (heap st) a" and f6: "sound R ax (heap st)"
    using f by (simp_all add: for_inv_def)
  have 2: "\<forall>b<length (heap st). level (heap st ! b) \<le> snd (hd (queue st)) + 1"
    if ne: "queue st \<noteq> []"
  proof -
    have "hd (queue st) \<in> set (queue st)"
      using ne by simp
    then have "l \<le> snd (hd (queue st))"
      using f2 by (auto simp: case_prod_beta)
    with f3 show ?thesis by fastforce
  qed
  have 3: "\<forall>b<length (heap st). b \<notin> fst ` set (queue st) \<longrightarrow> expanded R (heap st) b"
    using f4 f5 by blast
  show ?thesis
    using f1 2 3 f6 by (simp add: bfs_inv_def)
qed

lemma bfs_loop_bfs_inv:
  assumes "wf_state ax m st" "bfs_inv (set rs) ax st"
  shows "wf_state ax m (bfs_loop rs m st) \<and> bfs_inv (set rs) ax (bfs_loop rs m st)"
proof (rule bfs_loop_invariant [where P = "\<lambda>s. wf_state ax m s \<and> bfs_inv (set rs) ax s"])
  show "wf_state ax m st \<and> bfs_inv (set rs) ax st"
    using assms by simp
next
  fix s a l rest
  assume p: "wf_state ax m s \<and> bfs_inv (set rs) ax s"
    and q: "queue s = (a, l) # rest" and l: "l < m"
  let ?s = "s\<lparr>queue := rest\<rparr>"
  have w: "wf_state ax m ?s" "cur_ok m a l ?s"
    using wf_state_pop [of ax m s a l rest] p q l by simp_all
  have "for_inv (set rs) ax a l {} ?s"
    using p q by (simp add: bfs_inv_pop)
  then have "for_inv (set rs) ax a l ({} \<union> set rs) (apply_rules rs a l ?s)"
    using w by (intro apply_rules_for_inv) simp_all
  then have "bfs_inv (set rs) ax (apply_rules rs a l ?s)"
    by (simp add: for_inv_done)
  then show "wf_state ax m (apply_rules rs a l ?s) \<and> bfs_inv (set rs) ax (apply_rules rs a l ?s)"
    using w by (simp add: apply_rules_wf)
qed

lemma bfs_loop_exit:
  "queue (bfs_loop rs m st) = [] \<or> m \<le> snd (hd (queue (bfs_loop rs m st)))"
proof (induction rs m st rule: bfs_loop.induct)
  case (1 rules max_level st)
  show ?case
  proof (cases "queue st")
    case Nil
    then show ?thesis by (simp add: bfs_loop_Nil)
  next
    case (Cons x rest)
    obtain a l where x: "x = (a, l)" by (cases x)
    have q: "queue st = (a, l) # rest"
      using Cons x by simp
    show ?thesis
    proof (cases "l < max_level")
      case True
      show ?thesis
        using "1.IH" [OF Cons x [symmetric] True]
        by (simp add: bfs_loop_step [OF q True])
    next
      case False
      with q show ?thesis by (simp add: bfs_loop_stop)
    qed
  qed
qed

lemma bfs_inv_init:
  "bfs_inv R ax \<lparr>heap = [TheoremNode_init ax 0 None], seen_theorems = {ax}, queue = [(0, 0)]\<rparr>"
  by (simp add: bfs_inv_def sound_def TheoremNode_init_def)


lemma sorted_hd_le:
  "sorted xs \<Longrightarrow> x \<in> set xs \<Longrightarrow> hd xs \<le> (x :: int)"
  by (cases xs) auto

lemma complete_final:
  assumes wf: "wf_state ax m st" and b: "bfs_inv R ax st"
    and ex: "queue st = [] \<or> m \<le> snd (hd (queue st))"
  shows "k \<le> nat m \<Longrightarrow> t \<in> within R ax k \<Longrightarrow>
    \<exists>c<length (heap st). theorem_str (heap st ! c) = t \<and> level (heap st ! c) \<le> int k"
proof (induction k arbitrary: t)
  case 0
  then have "t = ax" by simp
  moreover have "0 < length (heap st)" "theorem_str (heap st ! 0) = ax" "level (heap st ! 0) = 0"
    using wf by (simp_all add: wf_state_def wf_heap_def)
  ultimately show ?case by auto
next
  case (Suc k)
  have k: "k \<le> nat m" and km: "int k < m"
    using Suc.prems(1) by simp_all
  from Suc.prems(2) consider "t \<in> within R ax k"
    | s where "s \<in> within R ax k" "t \<in> succs R s"
    by auto
  then show ?case
  proof cases
    case 1
    with Suc.IH [OF k] obtain c where "c < length (heap st)" "theorem_str (heap st ! c) = t"
        "level (heap st ! c) \<le> int k"
      by blast
    then have "c < length (heap st) \<and> theorem_str (heap st ! c) = t
        \<and> level (heap st ! c) \<le> int (Suc k)"
      by simp
    then show ?thesis by blast
  next
    case 2
    with Suc.IH [OF k] obtain d where d: "d < length (heap st)" "theorem_str (heap st ! d) = s"
        "level (heap st ! d) \<le> int k"
      by blast
    have "d \<notin> fst ` set (queue st)"
    proof
      assume "d \<in> fst ` set (queue st)"
      then obtain l where in_q: "(d, l) \<in> set (queue st)"
        by auto
      then have ld: "level (heap st ! d) = l"
        using wf by (auto simp: wf_state_def)
      have "sorted (map snd (queue st))"
        using b by (simp add: bfs_inv_def)
      moreover have "l \<in> set (map snd (queue st))"
        using in_q by force
      ultimately have "hd (map snd (queue st)) \<le> l"
        by (rule sorted_hd_le)
      moreover have "queue st \<noteq> []"
        using in_q by auto
      ultimately have "m \<le> l"
        using ex by (simp add: hd_map)
      with ld d(3) km show False by simp
    qed
    then have "expanded R (heap st) d"
      using b d(1) by (simp add: bfs_inv_def)
    moreover obtain r where "r \<in> R" "r s = Some t"
      using 2(2) by (auto simp: succs_def)
    ultimately obtain c where "c < length (heap st)" "theorem_str (heap st ! c) = t"
        "level (heap st ! c) \<le> level (heap st ! d) + 1"
      using d(2) unfolding expanded_def by blast
    then have "c < length (heap st) \<and> theorem_str (heap st ! c) = t
        \<and> level (heap st ! c) \<le> int (Suc k)"
      using d(3) by simp
    then show ?thesis by blast
  qed
qed

lemma generate_theorems:
  assumes g: "generate_theorem_tree_optimized ax rs m = Inr (root, h)"
  shows "tree_theorems h root = within (set rs) ax (nat m)"
proof -
  let ?s0 = "\<lparr>heap = [TheoremNode_init ax 0 None], seen_theorems = {ax}, queue = [(0, 0)]\<rparr>"
  let ?sf = "bfs_loop rs m ?s0"
  have h: "h = heap ?sf"
    using g by (auto simp: generate_theorem_tree_optimized_def alloc_def Let_def)
  have wf: "wf_state ax m ?sf" and b: "bfs_inv (set rs) ax ?sf"
    using bfs_loop_bfs_inv [OF wf_state_init bfs_inv_init, of ax m rs] by simp_all
  have ex: "queue ?sf = [] \<or> m \<le> snd (hd (queue ?sf))"
    by (rule bfs_loop_exit)
  have t: "tree_theorems h root = {theorem_str (h ! a) | a. a < length h}"
    by (simp add: tree_theorems_def generate_reach [OF g])
  have 1: "theorem_str (h ! a) \<in> within (set rs) ax (nat m)" if a: "a < length h" for a
  proof -
    have "theorem_str (h ! a) \<in> within (set rs) ax (nat (level (h ! a)))"
      using b a h by (simp add: bfs_inv_def sound_def)
    moreover have "level (h ! a) \<le> max 0 m"
      using wf a h by (simp add: wf_state_def wf_heap_def)
    then have "nat (level (h ! a)) \<le> nat m"
      by auto
    ultimately show ?thesis
      using within_mono by blast
  qed
  have 2: "\<exists>a<length h. theorem_str (h ! a) = u" if u: "u \<in> within (set rs) ax (nat m)" for u
    using complete_final [OF wf b ex order_refl u] h by blast
  show ?thesis
    unfolding t using 1 2 by blast
qed

section \<open>Runs of the generator on concrete inputs\<close>

lemmas run_defs =
  alloc_def TheoremNode_init_def RULES_def rule_step_def add_child_def Let_def

lemma bfs_MI_2:
  "bfs_loop RULES 2
     \<lparr>heap = [TheoremNode_init ''MI'' 0 None], seen_theorems = {''MI''}, queue = [(0, 0)]\<rparr> =
   \<lparr>heap = tree_MI_2,
    seen_theorems = {''MIIII'', ''MIIU'', ''MIUIU'', ''MII'', ''MIU'', ''MI''},
    queue = [(3, 2), (4, 2), (5, 2)]\<rparr>"
  by (simp add: run_defs rule_eval bfs_loop.simps tree_MI_2_def)

lemma run_MI_2: "generate_theorem_tree_optimized ''MI'' RULES 2 = Inr (0, tree_MI_2)"
  by (simp add: generate_theorem_tree_optimized_def alloc_def Let_def bfs_MI_2)

lemma reach_MI_2: "reach tree_MI_2 0 a \<longleftrightarrow> a < 6"
proof -
  have "length tree_MI_2 = 6"
    by (simp add: tree_MI_2_def)
  then show ?thesis
    using generate_reach [OF run_MI_2, of a] by simp
qed

lemma bfs_MI_3:
  "\<exists>s q. bfs_loop RULES 3
     \<lparr>heap = [TheoremNode_init ''MI'' 0 None], seen_theorems = {''MI''}, queue = [(0, 0)]\<rparr> =
   \<lparr>heap = tree_MI_3, seen_theorems = s, queue = q\<rparr>"
  by (simp add: run_defs rule_eval bfs_loop.simps tree_MI_3_def)

lemma run_MI_3: "generate_theorem_tree_optimized ''MI'' RULES 3 = Inr (0, tree_MI_3)"
  using bfs_MI_3 by (auto simp: generate_theorem_tree_optimized_def alloc_def Let_def)

lemma generate_MI_extends:
  assumes m: "3 \<le> m" and g: "generate_theorem_tree_optimized ''MI'' RULES m = Inr (root, h)"
  shows "extends tree_MI_3 h"
proof -
  let ?s0 = "\<lparr>heap = [TheoremNode_init ''MI'' 0 None], seen_theorems = {''MI''},
      queue = [(0, 0)]\<rparr>"
  obtain s q where s3: "bfs_loop RULES 3 ?s0 = \<lparr>heap = tree_MI_3, seen_theorems = s, queue = q\<rparr>"
    using bfs_MI_3 by blast
  then have h3: "heap (bfs_loop RULES 3 ?s0) = tree_MI_3"
    by simp
  have "wf_state ''MI'' 3 (bfs_loop RULES 3 ?s0)"
    using wf_state_init by (rule bfs_loop_wf)
  then have "wf_state ''MI'' m (bfs_loop RULES 3 ?s0)"
    using m by (rule wf_state_mono)
  then have "extends (heap (bfs_loop RULES 3 ?s0)) (heap (bfs_loop RULES m (bfs_loop RULES 3 ?s0)))"
    by (rule bfs_loop_extends)
  then have "extends tree_MI_3 (heap (bfs_loop RULES m ?s0))"
    using m by (simp add: bfs_loop_mono h3)
  with g show ?thesis
    by (auto simp: generate_theorem_tree_optimized_def alloc_def Let_def)
qed

lemma path_MUI:
  assumes "extends tree_MI_3 h"
  shows "get_path_to_root h 10 = Some [''MI'', ''MII'', ''MIIII'', ''MUI'']"
proof -
  have f: "theorem_str (h ! b) = theorem_str (tree_MI_3 ! b) \<and> parent (h ! b) = parent (tree_MI_3 ! b)"
    if "b < 11" for b
    using assms that by (simp add: extends_def tree_MI_3_def)
  have 10: "theorem_str (h ! 10) = ''MUI''" "parent (h ! 10) = Some 5"
    using f [of 10] by (simp_all add: tree_MI_3_def)
  have 5: "theorem_str (h ! 5) = ''MIIII''" "parent (h ! 5) = Some 2"
    using f [of 5] by (simp_all add: tree_MI_3_def)
  have 2: "theorem_str (h ! 2) = ''MII''" "parent (h ! 2) = Some 0"
    using f [of 2] by (simp_all add: tree_MI_3_def)
  have 0: "theorem_str (h ! 0) = ''MI''" "parent (h ! 0) = None"
    using f [of 0] by (simp_all add: tree_MI_3_def)
  show ?thesis
    by (simp add: get_path_to_root_def path_loop.simps 10 5 2 0)
qed

lemma perm_RULES: "mset [rule_2, rule_0, rule_1, rule_3] = mset RULES"
  by (simp add: RULES_def)

lemma bfs_MIIII_2:
  "heap (bfs_loop RULES 2
     \<lparr>heap = [TheoremNode_init ''MIIII'' 0 None], seen_theorems = {''MIIII''},
        queue = [(0, 0)]\<rparr>) = tree_MIIII_2"
  by (simp add: run_defs rule_eval bfs_loop.simps tree_MIIII_2_def)

lemma bfs_MIIII_2_reordered:
  "heap (bfs_loop [rule_2, rule_0, rule_1, rule_3] 2
     \<lparr>heap = [TheoremNode_init ''MIIII'' 0 None], seen_theorems = {''MIIII''},
        queue = [(0, 0)]\<rparr>) = tree_MIIII_2_reordered"
  by (simp add: run_defs rule_eval bfs_loop.simps tree_MIIII_2_reordered_def)

lemma run_MIIII_2:
  "generate_theorem_tree_optimized ''MIIII'' RULES 2 = Inr (0, tree_MIIII_2)"
  by (simp add: generate_theorem_tree_optimized_def alloc_def Let_def bfs_MIIII_2)

lemma run_MIIII_2_reordered:
  "generate_theorem_tree_optimized ''MIIII'' [rule_2, rule_0, rule_1, rule_3] 2 =
     Inr (0, tree_MIIII_2_reordered)"
  by (simp add: generate_theorem_tree_optimized_def alloc_def Let_def bfs_MIIII_2_reordered)

text \<open>
  Claim C7: with the axiom \<open>MI\<close>, the four rules and the bound 1, the root holds \<open>MI\<close>
  at level 0 and has exactly two children, \<open>MIU\<close> (Append-U) and \<open>MII\<close> (Double-tail),
  both at level 1 and without children; the other two rules are not applicable to \<open>MI\<close>.
\<close>

theorem generate_MI_1:
  "generate_theorem_tree_optimized ''MI'' RULES 1 =
     Inr (0, [\<lparr>theorem_str = ''MI'', level = 0, parent = None, children = [1, 2]\<rparr>,
              \<lparr>theorem_str = ''MIU'', level = 1, parent = Some 0, children = []\<rparr>,
              \<lparr>theorem_str = ''MII'', level = 1, parent = Some 0, children = []\<rparr>])
   \<and> rule_0 ''MI'' = Some ''MIU'' \<and> rule_1 ''MI'' = Some ''MII''
   \<and> rule_2 ''MI'' = None \<and> rule_3 ''MI'' = None"
  by (simp add: generate_theorem_tree_optimized_def run_defs rules_MI bfs_loop.simps)

text \<open>
  Claim C9: with the empty string as axiom and the four rules, the generator returns
  (it is a total function, and the result is on the \<open>Inr\<close> side) the tree of the root
  alone, which holds the empty string and has no children. This holds for every bound.
\<close>

theorem generate_empty_axiom:
  "generate_theorem_tree_optimized '''' RULES m =
     Inr (0, [\<lparr>theorem_str = '''', level = 0, parent = None, children = []\<rparr>])"
  by (simp add: generate_theorem_tree_optimized_def alloc_def TheoremNode_init_def RULES_def
      rule_step_def rules_empty Let_def bfs_loop.simps)

text \<open>
  Claim C5, as stated, fails: the generator has no check of the bound. With the bound
  \<open>-1\<close> the loop condition is false at once and the root is returned.
\<close>

theorem generate_negative_bound_returns:
  "generate_theorem_tree_optimized ''MI'' RULES (- 1) =
     Inr (0, [\<lparr>theorem_str = ''MI'', level = 0, parent = None, children = []\<rparr>])"
  by (simp add: generate_theorem_tree_optimized_def alloc_def TheoremNode_init_def Let_def
      bfs_loop.simps)

text \<open>
  Claim C5, amended: with a negative bound the generator signals no error; it returns
  the tree of the root alone (the axiom at level 0, no parent, no children).
\<close>

theorem generate_negative_bound:
  "m < 0 \<Longrightarrow>
   generate_theorem_tree_optimized axiom rules m =
     Inr (0, [\<lparr>theorem_str = axiom, level = 0, parent = None, children = []\<rparr>])"
  by (simp add: generate_theorem_tree_optimized_def alloc_def TheoremNode_init_def Let_def
      bfs_loop.simps)

theorem generate_negative_bound_witness:
  "(- 5 :: int) < 0 \<and>
   generate_theorem_tree_optimized ''MU'' [rule_1] (- 5) =
     Inr (0, [\<lparr>theorem_str = ''MU'', level = 0, parent = None, children = []\<rparr>])"
proof -
  have h: "(- 5 :: int) < 0" by simp
  show ?thesis
    using h generate_negative_bound [OF h, of "''MU''" "[rule_1]"] by simp
qed

text \<open>
  Claim C10: a call that leaves the bound out returns what the call with the bound 10
  returns.
\<close>

theorem generate_default_bound:
  "generate_call axiom rules None = generate_call axiom rules (Some 10)
   \<and> generate_call axiom rules None = generate_theorem_tree_optimized axiom rules 10"
  by (simp add: generate_call_def max_level_default_def)

section \<open>Invariants of the generated tree\<close>

text \<open>
  Claim C1: in the tree that the generator returns, for every axiom, rule list and bound,
  two different nodes never hold the same theorem string.
\<close>

theorem generate_unique:
  "generate_theorem_tree_optimized axiom rules max_level = Inr (root, h) \<Longrightarrow>
   reach h root a \<Longrightarrow> reach h root b \<Longrightarrow> a \<noteq> b \<Longrightarrow>
   theorem_str (h ! a) \<noteq> theorem_str (h ! b)"
proof -
  assume g: "generate_theorem_tree_optimized axiom rules max_level = Inr (root, h)"
    and r: "reach h root a" "reach h root b" and ne: "a \<noteq> b"
  have ab: "a < length h" "b < length h"
    using r generate_reach [OF g] by simp_all
  have "distinct (map theorem_str h)"
    using generate_wf [OF g] by (simp add: wf_heap_def)
  then show ?thesis
    using ab ne nth_eq_iff_index_eq [of "map theorem_str h" a b] by simp
qed

theorem generate_unique_witness:
  "generate_theorem_tree_optimized ''MI'' RULES 2 = Inr (0, tree_MI_2)
   \<and> reach tree_MI_2 0 3 \<and> reach tree_MI_2 0 5 \<and> (3 :: nat) \<noteq> 5
   \<and> theorem_str (tree_MI_2 ! 3) \<noteq> theorem_str (tree_MI_2 ! 5)"
proof -
  have a: "reach tree_MI_2 0 3" and b: "reach tree_MI_2 0 5"
    by (simp_all add: reach_MI_2)
  have ne: "(3 :: nat) \<noteq> 5" by simp
  show ?thesis
    using run_MI_2 a b ne generate_unique [OF run_MI_2 a b ne] by simp
qed

text \<open>
  Claim C2: in the tree that the generator returns, the root has level 0 and no parent,
  and every other node has a parent, which is a node of the tree, and is one level
  below it.
\<close>

theorem generate_levels:
  "generate_theorem_tree_optimized axiom rules max_level = Inr (root, h) \<Longrightarrow>
   level (h ! root) = 0 \<and> parent (h ! root) = None
   \<and> (\<forall>a. reach h root a \<and> a \<noteq> root \<longrightarrow>
         (\<exists>p. reach h root p \<and> parent (h ! a) = Some p
            \<and> level (h ! a) = level (h ! p) + 1))"
proof -
  assume g: "generate_theorem_tree_optimized axiom rules max_level = Inr (root, h)"
  have r: "root = 0" and w: "wf_heap axiom max_level h"
    using generate_wf [OF g] by simp_all
  have 1: "level (h ! root) = 0 \<and> parent (h ! root) = None"
    using r w by (simp add: wf_heap_def)
  have 2: "\<exists>p. reach h root p \<and> parent (h ! a) = Some p \<and> level (h ! a) = level (h ! p) + 1"
    if a: "reach h root a \<and> a \<noteq> root" for a
  proof -
    have "a < length h" "a \<noteq> 0"
      using a r generate_reach [OF g] by simp_all
    then obtain p where "p < length h" "parent (h ! a) = Some p"
        "level (h ! a) = level (h ! p) + 1"
      using w unfolding wf_heap_def by blast
    then show ?thesis
      using generate_reach [OF g] by blast
  qed
  show ?thesis
    using 1 2 by blast
qed

theorem generate_levels_witness:
  "generate_theorem_tree_optimized ''MI'' RULES 2 = Inr (0, tree_MI_2)
   \<and> level (tree_MI_2 ! 0) = 0 \<and> parent (tree_MI_2 ! 0) = None
   \<and> reach tree_MI_2 0 5 \<and> (5 :: nat) \<noteq> 0
   \<and> (\<exists>p. reach tree_MI_2 0 p \<and> parent (tree_MI_2 ! 5) = Some p
          \<and> level (tree_MI_2 ! 5) = level (tree_MI_2 ! p) + 1)"
proof -
  have a: "reach tree_MI_2 0 5 \<and> (5 :: nat) \<noteq> 0"
    by (simp add: reach_MI_2)
  show ?thesis
    using run_MI_2 a generate_levels [OF run_MI_2] by blast
qed

text \<open>
  Claim C3: for a bound that is not negative, no node of the tree that the generator
  returns has a level above the bound.
\<close>

theorem generate_depth_bound:
  "generate_theorem_tree_optimized axiom rules max_level = Inr (root, h) \<Longrightarrow>
   0 \<le> max_level \<Longrightarrow> reach h root a \<Longrightarrow> level (h ! a) \<le> max_level"
proof -
  assume g: "generate_theorem_tree_optimized axiom rules max_level = Inr (root, h)"
    and m: "0 \<le> max_level" and r: "reach h root a"
  have "a < length h"
    using r generate_reach [OF g] by simp
  moreover have "\<forall>b<length h. 0 \<le> level (h ! b) \<and> level (h ! b) \<le> max 0 max_level"
    using generate_wf [OF g] by (simp add: wf_heap_def)
  ultimately show ?thesis
    using m by auto
qed

theorem generate_depth_bound_witness:
  "generate_theorem_tree_optimized ''MI'' RULES 2 = Inr (0, tree_MI_2)
   \<and> (0 :: int) \<le> 2 \<and> reach tree_MI_2 0 4 \<and> level (tree_MI_2 ! 4) \<le> 2"
proof -
  have m: "(0 :: int) \<le> 2" by simp
  have a: "reach tree_MI_2 0 4"
    by (simp add: reach_MI_2)
  show ?thesis
    using run_MI_2 m a generate_depth_bound [OF run_MI_2 m a] by simp
qed

section \<open>The derivation path of MUI\<close>

text \<open>
  Claim C8: with the axiom \<open>MI\<close>, the four rules and a bound of at least 3, the tree
  has a node that holds \<open>MUI\<close>; every such node (there is one, by uniqueness) is at
  level 3, and \<^verbatim>\<open>get_path_to_root\<close> returns, for it, exactly the list
  \<open>MI\<close>, \<open>MII\<close>, \<open>MIIII\<close>, \<open>MUI\<close>.
\<close>

theorem generate_MI_path_MUI:
  "3 \<le> max_level \<Longrightarrow>
   generate_theorem_tree_optimized ''MI'' RULES max_level = Inr (root, h) \<Longrightarrow>
   (\<exists>a. reach h root a \<and> theorem_str (h ! a) = ''MUI'')
   \<and> (\<forall>a. reach h root a \<and> theorem_str (h ! a) = ''MUI'' \<longrightarrow>
         level (h ! a) = 3
         \<and> get_path_to_root h a = Some [''MI'', ''MII'', ''MIIII'', ''MUI''])"
proof -
  assume m: "3 \<le> max_level"
    and g: "generate_theorem_tree_optimized ''MI'' RULES max_level = Inr (root, h)"
  have e: "extends tree_MI_3 h"
    using m g by (rule generate_MI_extends)
  have len: "10 < length h"
    using e by (simp add: extends_def tree_MI_3_def)
  have r: "root = 0" and w: "wf_heap ''MI'' max_level h"
    using generate_wf [OF g] by simp_all
  have t: "theorem_str (h ! 10) = ''MUI''" and l: "level (h ! 10) = 3"
    using e by (simp_all add: extends_def tree_MI_3_def)
  have p: "get_path_to_root h 10 = Some [''MI'', ''MII'', ''MIIII'', ''MUI'']"
    using e by (rule path_MUI)
  have 1: "\<exists>a. reach h root a \<and> theorem_str (h ! a) = ''MUI''"
    using len t generate_reach [OF g] by blast
  have 2: "level (h ! a) = 3 \<and> get_path_to_root h a = Some [''MI'', ''MII'', ''MIIII'', ''MUI'']"
    if a: "reach h root a \<and> theorem_str (h ! a) = ''MUI''" for a
  proof -
    have "a < length h"
      using a generate_reach [OF g] by simp
    moreover have "distinct (map theorem_str h)"
      using w by (simp add: wf_heap_def)
    ultimately have "a = 10"
      using len a t nth_eq_iff_index_eq [of "map theorem_str h" a 10] by simp
    with l p show ?thesis by simp
  qed
  show ?thesis
    using 1 2 by blast
qed

theorem generate_MI_path_MUI_witness:
  "(3 :: int) \<le> 3 \<and> generate_theorem_tree_optimized ''MI'' RULES 3 = Inr (0, tree_MI_3)
   \<and> reach tree_MI_3 0 10 \<and> theorem_str (tree_MI_3 ! 10) = ''MUI''
   \<and> level (tree_MI_3 ! 10) = 3
   \<and> get_path_to_root tree_MI_3 10 = Some [''MI'', ''MII'', ''MIIII'', ''MUI'']"
proof -
  have m: "(3 :: int) \<le> 3" by simp
  have a: "reach tree_MI_3 0 10 \<and> theorem_str (tree_MI_3 ! 10) = ''MUI''"
    using generate_reach [OF run_MI_3, of 10] by (simp add: tree_MI_3_def)
  show ?thesis
    using m run_MI_3 a generate_MI_path_MUI [OF m run_MI_3] by blast
qed

section \<open>The order of the rules\<close>

text \<open>
  Claim C4, as stated, fails in its second half: the order of the rules changes more
  than the order of siblings. From the axiom \<open>MIIII\<close> both \<open>MIIIIU\<close> and \<open>MUI\<close>
  derive \<open>MUIU\<close>; under the four rules in their order \<open>MUIU\<close> is a child of
  \<open>MIIIIU\<close>, with Contract-III first it is a child of \<open>MUI\<close>.
\<close>

theorem rule_order_changes_parent:
  "mset [rule_2, rule_0, rule_1, rule_3] = mset RULES
   \<and> generate_theorem_tree_optimized ''MIIII'' RULES 2 = Inr (0, tree_MIIII_2)
   \<and> generate_theorem_tree_optimized ''MIIII'' [rule_2, rule_0, rule_1, rule_3] 2 =
       Inr (0, tree_MIIII_2_reordered)
   \<and> theorem_str (tree_MIIII_2 ! 5) = ''MUIU'' \<and> parent (tree_MIIII_2 ! 5) = Some 1
   \<and> theorem_str (tree_MIIII_2 ! 1) = ''MIIIIU''
   \<and> theorem_str (tree_MIIII_2_reordered ! 4) = ''MUIU''
   \<and> parent (tree_MIIII_2_reordered ! 4) = Some 1
   \<and> theorem_str (tree_MIIII_2_reordered ! 1) = ''MUI''"
  using perm_RULES run_MIIII_2 run_MIIII_2_reordered
  by (simp add: tree_MIIII_2_def tree_MIIII_2_reordered_def)

text \<open>
  Claim C4, amended: for every axiom, every bound and every permutation of the four
  rules, the set of the theorem strings in the tree is the set that the four rules in
  their order give. The order of the rules does not change which theorems are found;
  it can change the order of siblings and the parent of a theorem.
\<close>

theorem generate_rule_order:
  "mset rules' = mset RULES \<Longrightarrow>
   generate_theorem_tree_optimized axiom rules' max_level = Inr (root', h') \<Longrightarrow>
   generate_theorem_tree_optimized axiom RULES max_level = Inr (root, h) \<Longrightarrow>
   tree_theorems h' root' = tree_theorems h root"
proof -
  assume p: "mset rules' = mset RULES"
    and g': "generate_theorem_tree_optimized axiom rules' max_level = Inr (root', h')"
    and g: "generate_theorem_tree_optimized axiom RULES max_level = Inr (root, h)"
  have "set rules' = set RULES"
    using p by (rule mset_eq_setD)
  then show ?thesis
    by (simp add: generate_theorems [OF g] generate_theorems [OF g'])
qed

theorem generate_rule_order_witness:
  "mset [rule_2, rule_0, rule_1, rule_3] = mset RULES
   \<and> generate_theorem_tree_optimized ''MIIII'' [rule_2, rule_0, rule_1, rule_3] 2 =
       Inr (0, tree_MIIII_2_reordered)
   \<and> generate_theorem_tree_optimized ''MIIII'' RULES 2 = Inr (0, tree_MIIII_2)
   \<and> tree_theorems tree_MIIII_2_reordered 0 = tree_theorems tree_MIIII_2 0"
  using perm_RULES run_MIIII_2_reordered run_MIIII_2
    generate_rule_order [OF perm_RULES run_MIIII_2_reordered run_MIIII_2]
  by simp

end
